theory Spec2Isabelle
  imports Main "HOL-Library.Word"
begin

unbundle bit_operations_syntax

section \<open>Data model\<close>

text \<open>
  The two error kinds of \<^verbatim>\<open>BencError\<close> and the exceptions the modelled functions can raise.
  \<^verbatim>\<open>BencException\<close> carries its error kind; \<^verbatim>\<open>ValueError\<close> is what a
  \<^verbatim>\<open>bytearray\<close> raises when a value outside 0..255 is stored into it, and
  \<^verbatim>\<open>UnicodeEncodeError\<close> what \<^verbatim>\<open>str.encode('utf-8')\<close> raises on a lone surrogate.
\<close>

datatype BencError = OVERFLOW | BUF_TOO_SMALL

datatype exn = BencException BencError | ValueError | UnicodeEncodeError

text \<open>
  A buffer (\<^verbatim>\<open>bytes\<close> or \<^verbatim>\<open>bytearray\<close>) is a list of 8-bit words; reading an element gives
  the Python integer \<open>uint\<close> of it. Offsets are natural numbers: the cursor is an unsigned
  offset into the buffer. Python integers are unbounded and modelled as \<open>int\<close>; on them
  \<open>drop_bit\<close> is Python's \<^verbatim>\<open>>>\<close>, \<open>push_bit\<close> is \<^verbatim>\<open><<\<close>, and \<open>AND\<close>, \<open>OR\<close> are
  \<^verbatim>\<open>&\<close> and \<^verbatim>\<open>|\<close>.
\<close>

type_synonym byte = "8 word"
type_synonym buffer = "byte list"

definition MAX_VARINT_LEN :: nat where
  "MAX_VARINT_LEN = 10"

text \<open>
  Storing the integer \<open>x\<close> into a \<^verbatim>\<open>bytearray\<close> cell: Python raises \<^verbatim>\<open>ValueError\<close>
  unless \<open>0 \<le> x < 256\<close>.
\<close>

definition to_byte :: "int \<Rightarrow> exn + byte" where
  "to_byte x = (if 0 \<le> x \<and> x < 256 then Inr (word_of_int x) else Inl ValueError)"

section \<open>Varint (unsigned integer) functions\<close>

text \<open>The \<^verbatim>\<open>while v >= 0x80\<close> loop of \<^verbatim>\<open>size_uint\<close>; it returns the final \<^verbatim>\<open>size\<close> (here \<open>sz\<close>).\<close>

function size_uint_loop :: "int \<Rightarrow> nat \<Rightarrow> nat" where
  "size_uint_loop v sz =
     (if v \<ge> 0x80 then size_uint_loop (drop_bit 7 v) (sz + 1) else sz)"
  by pat_completeness auto
termination
  by (relation "measure (\<lambda>(v, sz). nat v)") (auto simp: drop_bit_eq_div)

declare size_uint_loop.simps [simp del]

definition size_uint :: "int \<Rightarrow> nat" where
  "size_uint value = size_uint_loop value 0 + 1"

text \<open>
  \<^verbatim>\<open>marshal_uint\<close>: the loop state is the buffer, \<^verbatim>\<open>v\<close> and \<^verbatim>\<open>i\<close>. The function returns the
  new offset; the buffer it has written is returned beside it. When it raises, the model
  keeps the exception only.
\<close>

function marshal_uint_loop :: "buffer \<Rightarrow> int \<Rightarrow> nat \<Rightarrow> exn + (nat \<times> buffer)" where
  "marshal_uint_loop b v i =
     (if v \<ge> 0x80 then
        (if i \<ge> length b then Inl (BencException BUF_TOO_SMALL)
         else case to_byte ((v AND 0x7F) OR 0x80) of
                Inl e \<Rightarrow> Inl e
              | Inr c \<Rightarrow> marshal_uint_loop (b[i := c]) (drop_bit 7 v) (i + 1))
      else
        (if i \<ge> length b then Inl (BencException BUF_TOO_SMALL)
         else case to_byte (v AND 0x7F) of
                Inl e \<Rightarrow> Inl e
              | Inr c \<Rightarrow> Inr (i + 1, b[i := c])))"
  by pat_completeness auto
termination
  by (relation "measure (\<lambda>(b, v, i). nat v)") (auto simp: drop_bit_eq_div)

declare marshal_uint_loop.simps [simp del]

definition marshal_uint :: "nat \<Rightarrow> buffer \<Rightarrow> int \<Rightarrow> exn + (nat \<times> buffer)" where
  "marshal_uint n b value = marshal_uint_loop b value n"

text \<open>
  \<^verbatim>\<open>unmarshal_uint\<close>: the \<^verbatim>\<open>for i in range(MAX_VARINT_LEN)\<close> loop with its state \<^verbatim>\<open>x\<close>,
  \<^verbatim>\<open>s\<close>; leaving the loop without a return raises \<^verbatim>\<open>OVERFLOW\<close>.
\<close>

function unmarshal_uint_loop :: "nat \<Rightarrow> buffer \<Rightarrow> nat \<Rightarrow> int \<Rightarrow> nat \<Rightarrow> exn + (nat \<times> int)" where
  "unmarshal_uint_loop n buf i x s =
     (if i < MAX_VARINT_LEN then
        (if n + i \<ge> length buf then Inl (BencException BUF_TOO_SMALL)
         else
           let byte_val = uint (buf ! (n + i)) in
           if byte_val < 0x80 then
             (if i = MAX_VARINT_LEN - 1 \<and> byte_val > 1 then Inl (BencException OVERFLOW)
              else Inr (n + i + 1, x OR push_bit s byte_val))
           else unmarshal_uint_loop n buf (i + 1) (x OR push_bit s (byte_val AND 0x7F)) (s + 7))
      else Inl (BencException OVERFLOW))"
  by pat_completeness auto
termination
  by (relation "measure (\<lambda>(n, buf, i, x, s). MAX_VARINT_LEN - i)") auto

declare unmarshal_uint_loop.simps [simp del]

definition unmarshal_uint :: "nat \<Rightarrow> buffer \<Rightarrow> exn + (nat \<times> int)" where
  "unmarshal_uint n buf = unmarshal_uint_loop n buf 0 0 0"

section \<open>Varint (signed integer) functions\<close>

definition encode_zigzag :: "int \<Rightarrow> int" where
  "encode_zigzag value = (if value < 0 then push_bit 1 \<bar>value\<bar> - 1 else push_bit 1 value)"

definition decode_zigzag :: "int \<Rightarrow> int" where
  "decode_zigzag value =
     (if value AND 1 \<noteq> 0 then - (drop_bit 1 value) - 1 else drop_bit 1 value)"

text \<open>\<^verbatim>\<open>skip_varint\<close>: the same scan as \<^verbatim>\<open>unmarshal_uint\<close>, without the accumulator.\<close>

function skip_varint_loop :: "nat \<Rightarrow> buffer \<Rightarrow> nat \<Rightarrow> exn + nat" where
  "skip_varint_loop n buf i =
     (if i < MAX_VARINT_LEN then
        (if n + i \<ge> length buf then Inl (BencException BUF_TOO_SMALL)
         else if uint (buf ! (n + i)) < 0x80 then
           (if i = MAX_VARINT_LEN - 1 \<and> uint (buf ! (n + i)) > 1
            then Inl (BencException OVERFLOW)
            else Inr (n + i + 1))
         else skip_varint_loop n buf (i + 1))
      else Inl (BencException OVERFLOW))"
  by pat_completeness auto
termination
  by (relation "measure (\<lambda>(n, buf, i). MAX_VARINT_LEN - i)") auto

declare skip_varint_loop.simps [simp del]

definition skip_varint :: "nat \<Rightarrow> buffer \<Rightarrow> exn + nat" where
  "skip_varint n buf = skip_varint_loop n buf 0"

section \<open>Primitive type functions\<close>

text \<open>
  \<^verbatim>\<open>marshal_byte\<close>, \<^verbatim>\<open>unmarshal_byte\<close> and \<^verbatim>\<open>skip_byte\<close>. The guard \<^verbatim>\<open>len(b) - n < 1\<close> is
  computed on Python integers.
\<close>

definition marshal_byte :: "nat \<Rightarrow> buffer \<Rightarrow> int \<Rightarrow> exn + (nat \<times> buffer)" where
  "marshal_byte n b value =
     (if int (length b) - int n < 1 then Inl (BencException BUF_TOO_SMALL)
      else case to_byte (value AND 0xFF) of
             Inl e \<Rightarrow> Inl e
           | Inr c \<Rightarrow> Inr (n + 1, b[n := c]))"

definition unmarshal_byte :: "nat \<Rightarrow> buffer \<Rightarrow> exn + (nat \<times> int)" where
  "unmarshal_byte n b =
     (if int (length b) - int n < 1 then Inl (BencException BUF_TOO_SMALL)
      else Inr (n + 1, uint (b ! n)))"

definition skip_byte :: "nat \<Rightarrow> buffer \<Rightarrow> exn + nat" where
  "skip_byte n b =
     (if int (length b) - int n < 1 then Inl (BencException BUF_TOO_SMALL)
      else Inr (n + 1))"

section \<open>String functions\<close>

text \<open>
  A Python \<^verbatim>\<open>str\<close> is a sequence of Unicode code points (numbers below \<open>0x110000\<close>).
  \<open>utf8_encode\<close> models the builtin \<^verbatim>\<open>s.encode('utf-8')\<close>: one to four bytes per code
  point, and \<^verbatim>\<open>UnicodeEncodeError\<close> on a surrogate (\<open>0xD800\<close> to \<open>0xDFFF\<close>).
\<close>

type_synonym str = "nat list"

definition utf8_char :: "nat \<Rightarrow> exn + byte list" where
  "utf8_char c =
     (if c < 0x80 then Inr [of_nat c]
      else if c < 0x800 then
        Inr [of_nat (0xC0 OR drop_bit 6 c), of_nat (0x80 OR (c AND 0x3F))]
      else if c < 0x10000 then
        (if 0xD800 \<le> c \<and> c \<le> 0xDFFF then Inl UnicodeEncodeError
         else Inr [of_nat (0xE0 OR drop_bit 12 c),
                   of_nat (0x80 OR (drop_bit 6 c AND 0x3F)),
                   of_nat (0x80 OR (c AND 0x3F))])
      else
        Inr [of_nat (0xF0 OR drop_bit 18 c),
             of_nat (0x80 OR (drop_bit 12 c AND 0x3F)),
             of_nat (0x80 OR (drop_bit 6 c AND 0x3F)),
             of_nat (0x80 OR (c AND 0x3F))])"

fun utf8_encode :: "str \<Rightarrow> exn + byte list" where
  "utf8_encode [] = Inr []"
| "utf8_encode (c # cs) =
     (case utf8_char c of
        Inl e \<Rightarrow> Inl e
      | Inr bs \<Rightarrow> (case utf8_encode cs of Inl e \<Rightarrow> Inl e | Inr rest \<Rightarrow> Inr (bs @ rest)))"

text \<open>The number of bytes UTF-8 needs for a code point.\<close>

definition utf8_width :: "nat \<Rightarrow> nat" where
  "utf8_width c = (if c < 0x80 then 1 else if c < 0x800 then 2 else if c < 0x10000 then 3 else 4)"

text \<open>\<^verbatim>\<open>size_string\<close> of \<^verbatim>\<open>src/std/python/bstd.py\<close>: sized over the encoded bytes.\<close>

definition size_string :: "str \<Rightarrow> exn + nat" where
  "size_string s =
     (case utf8_encode s of
        Inl e \<Rightarrow> Inl e
      | Inr encoded \<Rightarrow> (let str_len = length encoded in Inr (str_len + size_uint (int str_len))))"

text \<open>
  \<^verbatim>\<open>size_string\<close> of \<^verbatim>\<open>src/ports/python/std.py\<close> (module \<^verbatim>\<open>std\<close>): \<^verbatim>\<open>str_len = len(s)\<close>, the
  number of code points.
\<close>

definition std_size_string :: "str \<Rightarrow> nat" where
  "std_size_string s = (let str_len = length s in str_len + size_uint (int str_len))"

section \<open>Slice (list) functions\<close>

text \<open>
  The element operations are parameters. A marshaler returns the new offset and the
  buffer it has written; an unmarshaler the new offset and the item; a skipper the new
  offset. The \<^verbatim>\<open>for\<close> loops run over the items, or \<^verbatim>\<open>range(size)\<close>, in order and stop at the
  first exception.
\<close>

type_synonym 'a MarshalFunc = "nat \<Rightarrow> buffer \<Rightarrow> 'a \<Rightarrow> exn + (nat \<times> buffer)"
type_synonym 'a UnmarshalFunc = "nat \<Rightarrow> buffer \<Rightarrow> exn + (nat \<times> 'a)"
type_synonym SkipFunc = "nat \<Rightarrow> buffer \<Rightarrow> exn + nat"

fun marshal_items :: "'a MarshalFunc \<Rightarrow> 'a list \<Rightarrow> nat \<Rightarrow> buffer \<Rightarrow> exn + (nat \<times> buffer)" where
  "marshal_items marshaler [] n b = Inr (n, b)"
| "marshal_items marshaler (item # rest) n b =
     (case marshaler n b item of
        Inl e \<Rightarrow> Inl e
      | Inr (n', b') \<Rightarrow> marshal_items marshaler rest n' b')"

text \<open>
  \<^verbatim>\<open>b[n:n+4] = b'\x01\x01\x01\x01'\<close> is a slice assignment: the cells from \<open>n\<close> up to
  \<open>n + 4\<close> (as far as the buffer has them) are replaced by the four bytes.
\<close>

definition marshal_slice :: "nat \<Rightarrow> buffer \<Rightarrow> 'a list \<Rightarrow> 'a MarshalFunc \<Rightarrow> exn + (nat \<times> buffer)" where
  "marshal_slice n b slice_data marshaler =
     (case marshal_uint n b (int (length slice_data)) of
        Inl e \<Rightarrow> Inl e
      | Inr (n1, b1) \<Rightarrow>
          (case marshal_items marshaler slice_data n1 b1 of
             Inl e \<Rightarrow> Inl e
           | Inr (n2, b2) \<Rightarrow>
               if int (length b2) - int n2 < 4 then Inl (BencException BUF_TOO_SMALL)
               else Inr (n2 + 4, take n2 b2 @ [1, 1, 1, 1] @ drop (n2 + 4) b2)))"

fun unmarshal_items :: "'a UnmarshalFunc \<Rightarrow> nat \<Rightarrow> nat \<Rightarrow> buffer \<Rightarrow> 'a list \<Rightarrow> exn + (nat \<times> 'a list)" where
  "unmarshal_items unmarshaler 0 n b result = Inr (n, result)"
| "unmarshal_items unmarshaler (Suc k) n b result =
     (case unmarshaler n b of
        Inl e \<Rightarrow> Inl e
      | Inr (n', item) \<Rightarrow> unmarshal_items unmarshaler k n' b (result @ [item]))"

definition unmarshal_slice :: "nat \<Rightarrow> buffer \<Rightarrow> 'a UnmarshalFunc \<Rightarrow> exn + (nat \<times> 'a list)" where
  "unmarshal_slice n b unmarshaler =
     (case unmarshal_uint n b of
        Inl e \<Rightarrow> Inl e
      | Inr (n1, size1) \<Rightarrow>
          (case unmarshal_items unmarshaler (nat size1) n1 b [] of
             Inl e \<Rightarrow> Inl e
           | Inr (n2, result) \<Rightarrow>
               if int (length b) - int n2 < 4 then Inl (BencException BUF_TOO_SMALL)
               else Inr (n2 + 4, result)))"

fun skip_items :: "SkipFunc \<Rightarrow> nat \<Rightarrow> nat \<Rightarrow> buffer \<Rightarrow> exn + nat" where
  "skip_items element_skipper 0 n b = Inr n"
| "skip_items element_skipper (Suc k) n b =
     (case element_skipper n b of
        Inl e \<Rightarrow> Inl e
      | Inr n' \<Rightarrow> skip_items element_skipper k n' b)"

text \<open>\<^verbatim>\<open>skip_slice\<close> of \<^verbatim>\<open>src/std/python/bstd.py\<close>: count, elements, four bytes.\<close>

definition skip_slice :: "nat \<Rightarrow> buffer \<Rightarrow> SkipFunc \<Rightarrow> exn + nat" where
  "skip_slice n b element_skipper =
     (case unmarshal_uint n b of
        Inl e \<Rightarrow> Inl e
      | Inr (n1, element_count) \<Rightarrow>
          (case skip_items element_skipper (nat element_count) n1 b of
             Inl e \<Rightarrow> Inl e
           | Inr n2 \<Rightarrow>
               if int (length b) - int n2 < 4 then Inl (BencException BUF_TOO_SMALL)
               else Inr (n2 + 4)))"

text \<open>
  \<^verbatim>\<open>skip_slice\<close> of \<^verbatim>\<open>src/ports/python/std.py\<close> (module \<^verbatim>\<open>std\<close>): the loop
  \<^verbatim>\<open>for i in range(n, lb - 3)\<close> looks for the first four consecutive bytes equal to 1.
\<close>

function std_skip_slice_loop :: "buffer \<Rightarrow> nat \<Rightarrow> exn + nat" where
  "std_skip_slice_loop b i =
     (if int i < int (length b) - 3 then
        (if b ! i = 1 \<and> b ! (i + 1) = 1 \<and> b ! (i + 2) = 1 \<and> b ! (i + 3) = 1
         then Inr (i + 4)
         else std_skip_slice_loop b (i + 1))
      else Inl (BencException BUF_TOO_SMALL))"
  by pat_completeness auto
termination
  by (relation "measure (\<lambda>(b, i). length b - i)") auto

declare std_skip_slice_loop.simps [simp del]

definition std_skip_slice :: "nat \<Rightarrow> buffer \<Rightarrow> exn + nat" where
  "std_skip_slice n b = std_skip_slice_loop b n"

section \<open>Specification-side notions\<close>

text \<open>
  The varint at offset \<open>n\<close> is looked for in the window of at most \<open>MAX_VARINT_LEN\<close> bytes
  starting there. \<open>cont_prefix\<close> counts the leading bytes of a window whose continuation
  bit (\<open>0x80\<close>) is set; \<open>varint_value w k\<close> assembles the low 7 bits of the bytes
  \<open>0..k\<close> of the window, byte \<open>j\<close> at bit offset \<open>7 * j\<close>.
\<close>

definition varint_window :: "nat \<Rightarrow> buffer \<Rightarrow> byte list" where
  "varint_window n b = take MAX_VARINT_LEN (drop n b)"

definition cont_prefix :: "byte list \<Rightarrow> nat" where
  "cont_prefix w = length (takeWhile (\<lambda>c. c \<ge> 0x80) w)"

definition varint_value :: "byte list \<Rightarrow> nat \<Rightarrow> int" where
  "varint_value w k = (\<Sum>j\<le>k. push_bit (7 * j) (uint (w ! j) AND 0x7F))"

text \<open>
  What the scan of \<^verbatim>\<open>unmarshal_uint\<close> does from iteration \<open>i\<close> on, with accumulator \<open>x\<close> and
  shift \<open>s\<close>, in terms of the window \<open>w\<close> of the bytes it may still read.
\<close>

definition loop_spec :: "nat \<Rightarrow> nat \<Rightarrow> byte list \<Rightarrow> int \<Rightarrow> nat \<Rightarrow> exn + (nat \<times> int)" where
  "loop_spec n i w x s =
     (let k = cont_prefix w
      in if k = length w then
          (if i + length w < 10 then Inl (BencException BUF_TOO_SMALL)
           else Inl (BencException OVERFLOW))
        else if i + k = 9 \<and> 1 < uint (w ! k) then Inl (BencException OVERFLOW)
        else Inr (n + i + k + 1, x OR push_bit s (varint_value w k)))"

text \<open>The number of bits of the binary representation of a non-negative integer.\<close>

function bitlength :: "int \<Rightarrow> nat" where
  "bitlength v = (if v \<le> 0 then 0 else Suc (bitlength (v div 2)))"
  by pat_completeness auto
termination
  by (relation "measure nat") auto

declare bitlength.simps [simp del]

text \<open>The bytes \<^verbatim>\<open>marshal_uint\<close> writes for \<open>v\<close>, as a list.\<close>

function varint_bytes :: "int \<Rightarrow> byte list" where
  "varint_bytes v =
     (if v \<ge> 0x80 then word_of_int ((v AND 0x7F) OR 0x80) # varint_bytes (drop_bit 7 v)
      else [word_of_int (v AND 0x7F)])"
  by pat_completeness auto
termination
  by (relation "measure nat") (auto simp: drop_bit_eq_div)

declare varint_bytes.simps [simp del]

text \<open>
  \<open>reads u b n xs m\<close>: calling the unmarshaler \<open>u\<close> on \<open>b\<close> repeatedly, starting at offset
  \<open>n\<close>, yields the items \<open>xs\<close> in order and ends at offset \<open>m\<close>.
\<close>

fun reads :: "'a UnmarshalFunc \<Rightarrow> buffer \<Rightarrow> nat \<Rightarrow> 'a list \<Rightarrow> nat \<Rightarrow> bool" where
  "reads u b n [] m = (m = n)"
| "reads u b n (x # xs) m =
     (case u n b of Inl e \<Rightarrow> False | Inr (n', y) \<Rightarrow> y = x \<and> reads u b n' xs m)"

text \<open>
  An unmarshaler is local when a successful call never moves the offset backwards and
  depends only on the buffer up to the offset it returns.
\<close>

definition local_unmarshaler :: "'a UnmarshalFunc \<Rightarrow> bool" where
  "local_unmarshaler u =
     (\<forall>n b n' x. u n b = Inr (n', x) \<longrightarrow>
        n \<le> n' \<and> (\<forall>b'. take n' b' = take n' b \<longrightarrow> u n b' = Inr (n', x)))"

text \<open>
  A marshaler and a skipper match when a successful marshal call never moves the offset
  backwards, keeps the length of the buffer and its bytes before the offset, and the
  skipper, on any buffer that agrees with the written one up to the returned offset,
  returns that offset.
\<close>

definition matching_codec :: "'a MarshalFunc \<Rightarrow> SkipFunc \<Rightarrow> bool" where
  "matching_codec ma sk =
     (\<forall>n b x n' b'. ma n b x = Inr (n', b') \<longrightarrow>
        n \<le> n' \<and> length b' = length b \<and> take n b' = take n b
        \<and> (\<forall>b''. take n' b'' = take n' b' \<longrightarrow> sk n b'' = Inr n'))"

section \<open>The varint scan\<close>

lemma and_127_take_bit: "(x::int) AND 0x7F = take_bit 7 x"
  by (simp add: take_bit_eq_mask mask_eq_exp_minus_1)

lemma low7_plus_push: "take_bit 7 (a::int) + push_bit 7 t = take_bit 7 a OR push_bit 7 t"
  using concat_bit_eq [of 7 a t] by (simp add: concat_bit_def)

lemma or_push_low7:
  "(x OR push_bit s (take_bit 7 (a::int))) OR push_bit (s + 7) t
     = x OR push_bit s (take_bit 7 a + push_bit 7 t)"
proof -
  have "push_bit s (take_bit 7 a + push_bit 7 t)
      = push_bit s (take_bit 7 a) OR push_bit (s + 7) t"
    unfolding low7_plus_push by (simp add: push_bit_or push_bit_add add.commute)
  then show ?thesis by (simp add: or.assoc)
qed

lemma uint_low7: "uint (c::byte) < 0x80 \<Longrightarrow> take_bit 7 (uint c) = uint c"
  by (simp add: take_bit_int_eq_self)

lemma varint_sum_shift:
  "(\<Sum>j\<le>Suc k. push_bit (7 * j) (f j)) =
     (f 0 :: int) + push_bit 7 (\<Sum>j\<le>k. push_bit (7 * j) (f (Suc j)))"
proof -
  have "(\<Sum>j\<le>Suc k. push_bit (7 * j) (f j)) = push_bit (7 * 0) (f 0) + (\<Sum>j\<le>k. push_bit (7 * Suc j) (f (Suc j)))"
    by (rule sum.atMost_Suc_shift)
  also have "(\<Sum>j\<le>k. push_bit (7 * Suc j) (f (Suc j))) = push_bit 7 (\<Sum>j\<le>k. push_bit (7 * j) (f (Suc j)))"
    by (simp add: push_bit_eq_mult sum_distrib_left power_add ac_simps)
  finally show ?thesis by simp
qed

lemma varint_value_0: "varint_value (c # w) 0 = take_bit 7 (uint c)"
  by (simp add: varint_value_def and_127_take_bit)

lemma varint_value_Suc:
  "varint_value (c # w) (Suc k) = take_bit 7 (uint c) + push_bit 7 (varint_value w k)"
  unfolding varint_value_def and_127_take_bit
  using varint_sum_shift [where k = k and f = "\<lambda>j. take_bit 7 (uint ((c # w) ! j))"] by simp

lemma cont_prefix_Cons:
  "cont_prefix (c # w) = (if c \<ge> 0x80 then Suc (cont_prefix w) else 0)"
  by (simp add: cont_prefix_def)

lemma cont_prefix_Nil: "cont_prefix [] = 0"
  by (simp add: cont_prefix_def)

lemma take_drop_Cons:
  "0 < k \<Longrightarrow> m < length b \<Longrightarrow> take k (drop m b) = b ! m # take (k - 1) (drop (Suc m) b)"
  by (cases k) (simp_all add: Cons_nth_drop_Suc [symmetric])

lemma loop_spec_Nil:
  "loop_spec n i [] x s = (if i < 10 then Inl (BencException BUF_TOO_SMALL) else Inl (BencException OVERFLOW))"
  by (simp add: loop_spec_def cont_prefix_Nil)

lemma loop_spec_stop:
  "uint c < 0x80 \<Longrightarrow> loop_spec n i (c # w) x s =
     (if i = 9 \<and> 1 < uint c then Inl (BencException OVERFLOW) else Inr (n + i + 1, x OR push_bit s (uint c)))"
  by (simp add: loop_spec_def cont_prefix_Cons word_le_def varint_value_0 uint_low7)

lemma loop_spec_cont:
  "\<not> uint c < 0x80 \<Longrightarrow> loop_spec n i (c # w) x s =
     loop_spec n (i + 1) w (x OR push_bit s (uint c AND 0x7F)) (s + 7)"
  by (simp add: loop_spec_def cont_prefix_Cons word_le_def varint_value_Suc and_127_take_bit
      or_push_low7 Let_def)

lemma unmarshal_uint_loop_char:
  "i \<le> 10 \<Longrightarrow> unmarshal_uint_loop n b i x s = loop_spec n i (take (10 - i) (drop (n + i) b)) x s"
proof (induction n b i x s rule: unmarshal_uint_loop.induct)
  case (1 n buf i x s)
  consider (fin) "i = 10" | (short) "i < 10" "length buf \<le> n + i"
    | (stop) "i < 10" "n + i < length buf" "uint (buf ! (n + i)) < 0x80"
    | (cont) "i < 10" "n + i < length buf" "\<not> uint (buf ! (n + i)) < 0x80"
    using "1.prems" by linarith
  then show ?case
  proof cases
    case fin
    then show ?thesis
      by (subst unmarshal_uint_loop.simps) (simp add: MAX_VARINT_LEN_def loop_spec_Nil)
  next
    case short
    then show ?thesis
      by (subst unmarshal_uint_loop.simps) (simp add: MAX_VARINT_LEN_def loop_spec_Nil)
  next
    case stop
    then have w: "take (10 - i) (drop (n + i) buf) = buf ! (n + i) # take (9 - i) (drop (n + i + 1) buf)"
      using take_drop_Cons [of "10 - i" "n + i" buf] by simp
    show ?thesis
      unfolding w using stop
      by (subst unmarshal_uint_loop.simps)
         (simp add: MAX_VARINT_LEN_def Let_def loop_spec_stop)
  next
    case cont
    then have w: "take (10 - i) (drop (n + i) buf) = buf ! (n + i) # take (10 - (i + 1)) (drop (n + (i + 1)) buf)"
      using take_drop_Cons [of "10 - i" "n + i" buf] by simp
    have step: "unmarshal_uint_loop n buf i x s =
        unmarshal_uint_loop n buf (i + 1) (x OR push_bit s (uint (buf ! (n + i)) AND 0x7F)) (s + 7)"
      using cont by (subst unmarshal_uint_loop.simps) (simp add: Let_def MAX_VARINT_LEN_def)
    have IH: "unmarshal_uint_loop n buf (i + 1) (x OR push_bit s (uint (buf ! (n + i)) AND 0x7F)) (s + 7) =
       loop_spec n (i + 1) (take (10 - (i + 1)) (drop (n + (i + 1)) buf))
         (x OR push_bit s (uint (buf ! (n + i)) AND 0x7F)) (s + 7)"
      using cont "1.IH" [OF _ _ refl] by (simp add: MAX_VARINT_LEN_def)
    show ?thesis
      unfolding step IH w using loop_spec_cont [OF cont(3)] by simp
  qed
qed

text \<open>
  C1. For every buffer \<open>b\<close> and offset \<open>n\<close>, \<^verbatim>\<open>unmarshal_uint(n, b)\<close> raises
  \<^verbatim>\<open>BUF_TOO_SMALL\<close> when the buffer ends before a byte with the continuation bit clear
  is found within 10 bytes from \<open>n\<close>; it raises \<^verbatim>\<open>OVERFLOW\<close> when the first 10 bytes all
  have the continuation bit set, or when the 10th byte ends the varint and is greater
  than 1; otherwise it returns the offset one past the terminating byte and the value
  assembled from the low 7 bits of each byte, byte \<open>j\<close> at bit offset \<open>7 * j\<close>. The five
  buffers of the specification decode as it says.
\<close>

theorem unmarshal_uint_spec:
  "unmarshal_uint n b =
     (let w = varint_window n b; k = cont_prefix w
      in if k = length w then
           (if length w < MAX_VARINT_LEN then Inl (BencException BUF_TOO_SMALL)
            else Inl (BencException OVERFLOW))
         else if k = 9 \<and> 1 < uint (w ! k) then Inl (BencException OVERFLOW)
         else Inr (n + k + 1, varint_value w k))
   \<and> unmarshal_uint 0 [0x05] = Inr (1, 5)
   \<and> unmarshal_uint 0 [0x80, 0x01] = Inr (2, 128)
   \<and> unmarshal_uint 0 [0x80] = Inl (BencException BUF_TOO_SMALL)
   \<and> unmarshal_uint 0 (replicate 10 0x80) = Inl (BencException OVERFLOW)
   \<and> unmarshal_uint 0 (replicate 9 0x80 @ [0x02]) = Inl (BencException OVERFLOW)"
proof -
  have "unmarshal_uint n b = loop_spec n 0 (varint_window n b) 0 0"
    unfolding unmarshal_uint_def varint_window_def MAX_VARINT_LEN_def
    using unmarshal_uint_loop_char [of 0 n b 0 0] by simp
  then have general: "unmarshal_uint n b =
     (let w = varint_window n b; k = cont_prefix w
      in if k = length w then
           (if length w < MAX_VARINT_LEN then Inl (BencException BUF_TOO_SMALL)
            else Inl (BencException OVERFLOW))
         else if k = 9 \<and> 1 < uint (w ! k) then Inl (BencException OVERFLOW)
         else Inr (n + k + 1, varint_value w k))"
    by (auto simp: loop_spec_def MAX_VARINT_LEN_def Let_def)
  have e1: "unmarshal_uint 0 [0x05] = Inr (1, 5)" by code_simp
  have e2: "unmarshal_uint 0 [0x80, 0x01] = Inr (2, 128)" by code_simp
  have e3: "unmarshal_uint 0 [0x80] = Inl (BencException BUF_TOO_SMALL)" by code_simp
  have e4: "unmarshal_uint 0 (replicate 10 0x80) = Inl (BencException OVERFLOW)" by code_simp
  have e5: "unmarshal_uint 0 (replicate 9 0x80 @ [0x02]) = Inl (BencException OVERFLOW)" by code_simp
  from general e1 e2 e3 e4 e5 show ?thesis by (intro conjI)
qed

section \<open>Skip and unmarshal agree\<close>

lemma skip_varint_loop_unmarshal:
  "skip_varint_loop n buf i =
     (case unmarshal_uint_loop n buf i x s of Inl e \<Rightarrow> Inl e | Inr r \<Rightarrow> Inr (fst r))"
proof (induction n buf i x s rule: unmarshal_uint_loop.induct)
  case (1 n buf i x s)
  show ?case
  proof (cases "i < MAX_VARINT_LEN \<and> n + i < length buf \<and> \<not> uint (buf ! (n + i)) < 0x80")
    case True
    then have "skip_varint_loop n buf i = skip_varint_loop n buf (i + 1)"
      by (subst skip_varint_loop.simps) simp
    moreover have "unmarshal_uint_loop n buf i x s =
        unmarshal_uint_loop n buf (i + 1) (x OR push_bit s (uint (buf ! (n + i)) AND 0x7F)) (s + 7)"
      using True by (subst unmarshal_uint_loop.simps) (simp add: Let_def)
    ultimately show ?thesis
      using True "1.IH" [OF _ _ refl] by simp
  next
    case False
    then show ?thesis
      by (subst skip_varint_loop.simps, subst unmarshal_uint_loop.simps)
         (auto simp: Let_def)
  qed
qed

text \<open>
  C3. On every buffer and offset \<^verbatim>\<open>skip_varint\<close> agrees with \<^verbatim>\<open>unmarshal_uint\<close>: where
  \<^verbatim>\<open>unmarshal_uint\<close> returns an offset and a value, \<^verbatim>\<open>skip_varint\<close> returns that offset, and
  where \<^verbatim>\<open>unmarshal_uint\<close> raises, \<^verbatim>\<open>skip_varint\<close> raises the same exception.
\<close>

theorem skip_varint_agrees_unmarshal_uint:
  "skip_varint n b =
     (case unmarshal_uint n b of Inl e \<Rightarrow> Inl e | Inr (m, v) \<Rightarrow> Inr m)"
  unfolding skip_varint_def unmarshal_uint_def
  by (simp add: skip_varint_loop_unmarshal [of n b 0 0 0] split: sum.split prod.split)

section \<open>ZigZag\<close>

lemma decode_encode_zigzag: "decode_zigzag (encode_zigzag v) = v"
  unfolding decode_zigzag_def encode_zigzag_def
  by (simp add: push_bit_eq_mult drop_bit_eq_div and_one_eq) presburger

lemma encode_decode_zigzag: "0 \<le> u \<Longrightarrow> encode_zigzag (decode_zigzag u) = u"
  unfolding decode_zigzag_def encode_zigzag_def
  by (simp add: push_bit_eq_mult drop_bit_eq_div and_one_eq) presburger

lemma encode_zigzag_range:
  "- (2 ^ 63) \<le> v \<Longrightarrow> v < 2 ^ 63 \<Longrightarrow> 0 \<le> encode_zigzag v \<and> encode_zigzag v < 2 ^ 64"
  unfolding encode_zigzag_def by (simp add: push_bit_eq_mult)

lemma decode_zigzag_range:
  "0 \<le> u \<Longrightarrow> u < 2 ^ 64 \<Longrightarrow> - (2 ^ 63) \<le> decode_zigzag u \<and> decode_zigzag u < 2 ^ 63"
  unfolding decode_zigzag_def by (simp add: drop_bit_eq_div) linarith

text \<open>
  C4. ZigZag encoding is a bijection between the signed and the unsigned 64-bit integers:
  for every \<open>v\<close> with \<open>-2^63 \<le> v < 2^63\<close> (the minimum included),
  \<open>encode_zigzag v\<close> is \<open>(|v| << 1) - 1\<close> when \<open>v < 0\<close> and \<open>v << 1\<close> otherwise, lies in
  \<open>[0, 2^64)\<close>, and \<open>decode_zigzag\<close> maps it back to \<open>v\<close>; 0, -1, 1, -2 encode to
  0, 1, 2, 3.
\<close>

theorem zigzag_bijection:
  "bij_betw encode_zigzag {- (2 ^ 63) ..< 2 ^ 63} {0 ..< 2 ^ 64}
   \<and> (\<forall>v \<in> {- (2 ^ 63) ..< 2 ^ 63}.
         encode_zigzag v = (if v < 0 then push_bit 1 \<bar>v\<bar> - 1 else push_bit 1 v)
       \<and> encode_zigzag v \<in> {0 ..< 2 ^ 64}
       \<and> decode_zigzag (encode_zigzag v) = v)
   \<and> encode_zigzag 0 = 0 \<and> encode_zigzag (- 1) = 1
   \<and> encode_zigzag 1 = 2 \<and> encode_zigzag (- 2) = 3"
proof -
  have "bij_betw encode_zigzag {- (2 ^ 63) ..< 2 ^ 63} {0 ..< 2 ^ 64}"
  proof (rule bij_betw_byWitness [where f' = decode_zigzag])
    show "\<forall>a\<in>{- (2 ^ 63)..<2 ^ 63}. decode_zigzag (encode_zigzag a) = a"
      by (simp add: decode_encode_zigzag)
    show "\<forall>a'\<in>{0..<2 ^ 64}. encode_zigzag (decode_zigzag a') = a'"
      by (simp add: encode_decode_zigzag)
    show "encode_zigzag ` {- (2 ^ 63)..<2 ^ 63} \<subseteq> {0..<2 ^ 64}"
      using encode_zigzag_range by auto
    show "decode_zigzag ` {0..<2 ^ 64} \<subseteq> {- (2 ^ 63)..<2 ^ 63}"
      using decode_zigzag_range by auto
  qed
  moreover have "\<forall>v \<in> {- (2 ^ 63) ..< 2 ^ 63}.
         encode_zigzag v = (if v < 0 then push_bit 1 \<bar>v\<bar> - 1 else push_bit 1 v)
       \<and> encode_zigzag v \<in> {0 ..< 2 ^ 64}
       \<and> decode_zigzag (encode_zigzag v) = v"
    using encode_zigzag_range by (simp add: decode_encode_zigzag) (simp add: encode_zigzag_def)
  moreover have "encode_zigzag 0 = 0" "encode_zigzag (- 1) = 1"
      "encode_zigzag 1 = 2" "encode_zigzag (- 2) = 3"
    by (simp_all add: encode_zigzag_def)
  ultimately show ?thesis by (intro conjI)
qed

text \<open>The theorem at the minimum value \<open>-2^63\<close>.\<close>

theorem zigzag_bijection_witness:
  "encode_zigzag (- (2 ^ 63)) = 2 ^ 64 - 1 \<and> decode_zigzag (2 ^ 64 - 1) = - (2 ^ 63)"
proof -
  have "(- (2 ^ 63) :: int) \<in> {- (2 ^ 63) ..< 2 ^ 63}" by simp
  with zigzag_bijection
  have "decode_zigzag (encode_zigzag (- (2 ^ 63))) = - (2 ^ 63)" by blast
  moreover have "encode_zigzag (- (2 ^ 63)) = 2 ^ 64 - 1"
    by (simp add: encode_zigzag_def)
  ultimately show ?thesis by simp
qed

section \<open>The size of a varint\<close>

lemma bitlength_le: "0 \<le> v \<Longrightarrow> v < 2 ^ k \<Longrightarrow> bitlength v \<le> k"
proof (induction k arbitrary: v)
  case 0
  then show ?case by (subst bitlength.simps) simp
next
  case (Suc k)
  have "v div 2 < 2 ^ k" using Suc.prems by simp
  moreover have "0 \<le> v div 2" using Suc.prems by simp
  ultimately have "bitlength (v div 2) \<le> k" by (rule Suc.IH [rotated])
  then show ?case by (subst bitlength.simps) simp
qed

lemma bitlength_div: "2 ^ k \<le> v \<Longrightarrow> bitlength v = k + bitlength (v div 2 ^ k)"
proof (induction k arbitrary: v)
  case 0
  then show ?case by simp
next
  case (Suc k)
  have "(0::int) < 2 ^ Suc k" by simp
  then have pos: "0 < v" using Suc.prems by linarith
  have "2 ^ k \<le> v div 2" using Suc.prems by simp
  then have "bitlength (v div 2) = k + bitlength (v div 2 div 2 ^ k)" by (rule Suc.IH)
  also have "v div 2 div 2 ^ k = v div 2 ^ Suc k"
    by (simp add: zdiv_zmult2_eq)
  finally show ?case using pos by (subst bitlength.simps) simp
qed

lemma bitlength_pos: "0 < v \<Longrightarrow> 0 < bitlength v"
  by (subst bitlength.simps) simp

lemma bitlength_bounds: "0 < v \<Longrightarrow> 2 ^ (bitlength v - 1) \<le> v \<and> v < 2 ^ bitlength v"
proof -
  assume v: "0 < v"
  have "v < 2 ^ bitlength v"
  proof (rule ccontr)
    assume "\<not> v < 2 ^ bitlength v"
    then have "2 ^ bitlength v \<le> v" by simp
    then have "bitlength v = bitlength v + bitlength (v div 2 ^ bitlength v)
        \<and> 0 < v div 2 ^ bitlength v"
      using bitlength_div [of "bitlength v" v] by (simp add: pos_imp_zdiv_pos_iff)
    then show False using bitlength_pos [of "v div 2 ^ bitlength v"] by simp
  qed
  moreover have "2 ^ (bitlength v - 1) \<le> v"
  proof (rule ccontr)
    assume "\<not> 2 ^ (bitlength v - 1) \<le> v"
    then have "bitlength v \<le> bitlength v - 1" using v by (intro bitlength_le) simp_all
    then show False using bitlength_pos [OF v] by simp
  qed
  ultimately show ?thesis by simp
qed

lemma size_uint_loop_bitlength:
  "0 \<le> v \<Longrightarrow> size_uint_loop v sz = sz + (bitlength v - 1) div 7"
proof (induction v sz rule: size_uint_loop.induct)
  case (1 v sz)
  show ?case
  proof (cases "v \<ge> 0x80")
    case True
    have d: "drop_bit 7 v = v div 2 ^ 7" by (simp add: drop_bit_eq_div)
    have "0 < v div 2 ^ 7" using True by simp
    then have p: "0 < bitlength (v div 2 ^ 7)" by (rule bitlength_pos)
    have b: "bitlength v = 7 + bitlength (v div 2 ^ 7)"
      using True by (intro bitlength_div) simp
    have "size_uint_loop v sz = size_uint_loop (drop_bit 7 v) (sz + 1)"
      using True by (subst size_uint_loop.simps) simp
    also have "\<dots> = sz + 1 + (bitlength (v div 2 ^ 7) - 1) div 7"
      using "1.IH" [OF True] True unfolding d by simp
    finally show ?thesis using p unfolding b by simp
  next
    case False
    then have "bitlength v \<le> 7" using "1.prems" by (intro bitlength_le) simp_all
    then have "(bitlength v - 1) div 7 = 0" by simp
    then show ?thesis using False by (subst size_uint_loop.simps) simp
  qed
qed

text \<open>
  C7, as amended. For every \<open>v \<ge> 0\<close> (so for every \<open>0 \<le> v < 2^64\<close>), \<open>size_uint v\<close> is 1
  when \<open>v = 0\<close> and \<open>1 + floor((bitlength v - 1) / 7)\<close> otherwise.
\<close>

theorem size_uint_bitlength_amended:
  "0 \<le> v \<Longrightarrow> size_uint v = (if v = 0 then 1 else 1 + (bitlength v - 1) div 7)"
  by (simp add: size_uint_def size_uint_loop_bitlength) (subst bitlength.simps, simp)

text \<open>
  The claim as stated, \<open>size_uint v = 1 + floor(bitlength v / 7)\<close>, fails at \<open>v = 64\<close>: seven
  bits, one byte.
\<close>

theorem size_uint_bitlength_counterexample:
  "(0::int) \<le> 64 \<and> (64::int) < 2 ^ 64 \<and> size_uint 64 \<noteq> 1 + bitlength 64 div 7"
proof -
  have "size_uint 64 = 1" by code_simp
  moreover have "bitlength 64 = 7" by code_simp
  ultimately show ?thesis by simp
qed

theorem size_uint_bitlength_amended_witness:
  "size_uint 64 = 1 + (bitlength 64 - 1) div 7 \<and> size_uint 0 = 1"
  using size_uint_bitlength_amended [of 64] size_uint_bitlength_amended [of 0] by simp

section \<open>Bytes\<close>

lemma and_255_mod: "(v::int) AND 0xFF = v mod 256"
  using take_bit_eq_mask [of 8 v] by (simp add: mask_eq_exp_minus_1 take_bit_eq_mod)

lemma marshal_byte_ok:
  "n < length b \<Longrightarrow> marshal_byte n b v = Inr (n + 1, b[n := word_of_int (v AND 0xFF)])"
proof -
  assume n: "n < length b"
  have "0 \<le> v AND 0xFF \<and> v AND 0xFF < 256" unfolding and_255_mod by simp
  then show ?thesis using n by (simp add: marshal_byte_def to_byte_def)
qed

text \<open>
  C10. \<^verbatim>\<open>marshal_byte\<close> masks its input to the low 8 bits before the store, so with room
  for one byte at \<open>n\<close> it succeeds for every integer (negative or above 255 included),
  and \<^verbatim>\<open>unmarshal_byte\<close> of what it wrote gives \<open>v mod 256\<close>, which is \<open>v\<close> exactly when
  \<open>0 \<le> v \<le> 255\<close>.
\<close>

theorem marshal_byte_masks:
  "n < length b \<Longrightarrow>
     marshal_byte n b v = Inr (n + 1, b[n := word_of_int (v AND 0xFF)])
   \<and> unmarshal_byte n (b[n := word_of_int (v AND 0xFF)]) = Inr (n + 1, v mod 256)
   \<and> (v mod 256 = v \<longleftrightarrow> 0 \<le> v \<and> v \<le> 255)"
proof -
  assume n: "n < length b"
  have m: "marshal_byte n b v = Inr (n + 1, b[n := word_of_int (v AND 0xFF)])"
    using n by (rule marshal_byte_ok)
  have "uint (word_of_int (v AND 0xFF) :: byte) = v mod 256"
    unfolding and_255_mod by (simp add: uint_word_of_int)
  then have u: "unmarshal_byte n (b[n := word_of_int (v AND 0xFF)]) = Inr (n + 1, v mod 256)"
    using n by (simp add: unmarshal_byte_def)
  have e: "v mod 256 = v \<longleftrightarrow> 0 \<le> v \<and> v \<le> 255"
    by presburger
  from m u e show ?thesis by (intro conjI)
qed

text \<open>The theorem at \<open>v = -1\<close> and at \<open>v = 300\<close>, on a one-byte buffer.\<close>

theorem marshal_byte_masks_witness:
  "marshal_byte 0 [0] (- 1) = Inr (1, [255]) \<and> unmarshal_byte 0 [255] = Inr (1, 255)
   \<and> marshal_byte 0 [0] 300 = Inr (1, [44]) \<and> unmarshal_byte 0 [44] = Inr (1, 44)"
  using marshal_byte_masks [of 0 "[0]" "- 1"] marshal_byte_masks [of 0 "[0]" 300]
  by (simp add: and_255_mod)

section \<open>Marshalling a varint\<close>

lemma take_bit7_less: "take_bit 7 (v::int) < 128"
  using take_bit_int_less_exp [of 7 v] by simp

lemma low7_or_128: "((v::int) AND 0x7F) OR 0x80 = take_bit 7 v + 128"
  using low7_plus_push [of v 1] by (simp add: and_127_take_bit)

lemma to_byte_cont: "to_byte ((v AND 0x7F) OR 0x80) = Inr (word_of_int ((v AND 0x7F) OR 0x80))"
  unfolding low7_or_128 using take_bit7_less [of v] by (simp add: to_byte_def)

lemma to_byte_last: "to_byte (v AND 0x7F) = Inr (word_of_int (v AND 0x7F))"
  unfolding and_127_take_bit using take_bit7_less [of v] by (simp add: to_byte_def)

lemma uint_byte_of_int: "0 \<le> k \<Longrightarrow> k < 256 \<Longrightarrow> uint (word_of_int k :: byte) = k"
  by (simp add: uint_word_of_int_eq take_bit_int_eq_self)

lemma uint_cont_byte: "uint (word_of_int ((v AND 0x7F) OR 0x80) :: byte) = take_bit 7 v + 128"
  unfolding low7_or_128 using take_bit7_less [of v] by (intro uint_byte_of_int) simp_all

lemma uint_last_byte: "uint (word_of_int (v AND 0x7F) :: byte) = take_bit 7 v"
  unfolding and_127_take_bit using take_bit7_less [of v] by (intro uint_byte_of_int) simp_all

lemma varint_bytes_cont:
  "v \<ge> 0x80 \<Longrightarrow> varint_bytes v = word_of_int ((v AND 0x7F) OR 0x80) # varint_bytes (drop_bit 7 v)"
  by (subst varint_bytes.simps) simp

lemma varint_bytes_last:
  "\<not> v \<ge> 0x80 \<Longrightarrow> varint_bytes v = [word_of_int (v AND 0x7F)]"
  by (subst varint_bytes.simps) simp

lemma length_varint_bytes_loop: "size_uint_loop v sz + 1 = sz + length (varint_bytes v)"
proof (induction v sz rule: size_uint_loop.induct)
  case (1 v sz)
  show ?case
  proof (cases "v \<ge> 0x80")
    case True
    then show ?thesis
      using "1.IH" by (subst size_uint_loop.simps) (simp add: varint_bytes_cont)
  next
    case False
    then show ?thesis
      by (subst size_uint_loop.simps) (simp add: varint_bytes_last)
  qed
qed

lemma length_varint_bytes: "length (varint_bytes v) = size_uint v"
  using length_varint_bytes_loop [of v 0] by (simp add: size_uint_def)

lemma marshal_uint_loop_bytes:
  "i + length (varint_bytes v) \<le> length b \<Longrightarrow>
     marshal_uint_loop b v i =
       Inr (i + length (varint_bytes v),
            take i b @ varint_bytes v @ drop (i + length (varint_bytes v)) b)"
proof (induction b v i rule: marshal_uint_loop.induct)
  case (1 b v i)
  show ?case
  proof (cases "v \<ge> 0x80")
    case True
    let ?c = "word_of_int ((v AND 0x7F) OR 0x80) :: byte"
    let ?v = "drop_bit 7 v"
    have vb: "varint_bytes v = ?c # varint_bytes ?v" using True by (rule varint_bytes_cont)
    have i: "i < length b" using "1.prems" vb by simp
    have step: "marshal_uint_loop b v i = marshal_uint_loop (b[i := ?c]) ?v (i + 1)"
      using True i by (subst marshal_uint_loop.simps) (simp add: to_byte_cont)
    have "marshal_uint_loop (b[i := ?c]) ?v (i + 1) =
       Inr (i + 1 + length (varint_bytes ?v),
            take (i + 1) (b[i := ?c]) @ varint_bytes ?v @ drop (i + 1 + length (varint_bytes ?v)) (b[i := ?c]))"
      using "1.prems" vb True i to_byte_cont [of v]
      by (intro "1.IH"(1)) simp_all
    moreover have "take (i + 1) (b[i := ?c]) = take i b @ [?c]"
      using i by (simp add: take_Suc_conv_app_nth)
    moreover have "drop (i + 1 + length (varint_bytes ?v)) (b[i := ?c]) = drop (i + 1 + length (varint_bytes ?v)) b"
      by simp
    ultimately show ?thesis unfolding step vb by simp
  next
    case False
    have vb: "varint_bytes v = [word_of_int (v AND 0x7F)]" using False by (rule varint_bytes_last)
    have i: "i < length b" using "1.prems" vb by simp
    have "marshal_uint_loop b v i = Inr (i + 1, b[i := word_of_int (v AND 0x7F)])"
      using False i by (subst marshal_uint_loop.simps) (simp add: to_byte_last)
    then show ?thesis unfolding vb using i by (simp add: upd_conv_take_nth_drop)
  qed
qed

lemma take_eq_ConsD:
  "take (length (c # cs)) (drop m b) = c # cs \<Longrightarrow>
     m < length b \<and> b ! m = c \<and> take (length cs) (drop (Suc m) b) = cs"
proof -
  assume a: "take (length (c # cs)) (drop m b) = c # cs"
  then have "drop m b \<noteq> []" by auto
  then have m: "m < length b" by simp
  then have "drop m b = b ! m # drop (Suc m) b" by (simp add: Cons_nth_drop_Suc)
  with a m show ?thesis by simp
qed

section \<open>Reading back a marshalled varint\<close>

lemma low7_recompose: "take_bit 7 (v::int) + push_bit 7 (drop_bit 7 v) = v"
  using bits_ident [of 7 v] by (simp add: add.commute)

lemma drop7_less: "(v::int) < 2 * 128 ^ Suc r \<Longrightarrow> drop_bit 7 v < 2 * 128 ^ r"
  by (simp add: drop_bit_eq_div) 

lemma drop7_ge: "2 * 128 ^ Suc r \<le> (v::int) \<Longrightarrow> 2 * 128 ^ r \<le> drop_bit 7 v"
  by (simp add: drop_bit_eq_div)

lemma unmarshal_uint_loop_stop:
  "i < 10 \<Longrightarrow> n + i < length b \<Longrightarrow> uint (b ! (n + i)) < 0x80 \<Longrightarrow>
     unmarshal_uint_loop n b i x s =
       (if i = 9 \<and> 1 < uint (b ! (n + i)) then Inl (BencException OVERFLOW)
        else Inr (n + i + 1, x OR push_bit s (uint (b ! (n + i)))))"
  by (subst unmarshal_uint_loop.simps) (simp add: MAX_VARINT_LEN_def Let_def)

lemma unmarshal_uint_loop_cont:
  "i < 10 \<Longrightarrow> n + i < length b \<Longrightarrow> \<not> uint (b ! (n + i)) < 0x80 \<Longrightarrow>
     unmarshal_uint_loop n b i x s =
       unmarshal_uint_loop n b (i + 1) (x OR push_bit s (uint (b ! (n + i)) AND 0x7F)) (s + 7)"
  by (subst unmarshal_uint_loop.simps) (simp add: MAX_VARINT_LEN_def Let_def)

lemma unmarshal_uint_loop_end:
  "unmarshal_uint_loop n b 10 x s = Inl (BencException OVERFLOW)"
  by (subst unmarshal_uint_loop.simps) (simp add: MAX_VARINT_LEN_def)

lemma unmarshal_uint_loop_bytes:
  "0 \<le> v \<Longrightarrow> v < 2 * 128 ^ r \<Longrightarrow> i + r = 9 \<Longrightarrow>
   take (length (varint_bytes v)) (drop (n + i) b) = varint_bytes v \<Longrightarrow>
     unmarshal_uint_loop n b i x s = Inr (n + i + length (varint_bytes v), x OR push_bit s v)"
proof (induction r arbitrary: v i x s)
  case 0
  then have v: "\<not> v \<ge> 0x80" and i: "i = 9" and v1: "\<not> 1 < v" by simp_all
  have vb: "varint_bytes v = [word_of_int (v AND 0x7F)]" using v by (rule varint_bytes_last)
  have "take (length [word_of_int (v AND 0x7F) :: byte]) (drop (n + i) b) = [word_of_int (v AND 0x7F)]"
    using "0.prems"(4) unfolding vb .
  then have b: "n + i < length b" "b ! (n + i) = word_of_int (v AND 0x7F)"
    using take_eq_ConsD [of "word_of_int (v AND 0x7F)" "[]" "n + i" b] by simp_all
  have u: "uint (b ! (n + i)) = v"
    unfolding b uint_last_byte using "0.prems"(1) v by (simp add: take_bit_int_eq_self)
  show ?case
    using unmarshal_uint_loop_stop [of i n b x s] b(1) u v v1 i vb by simp
next
  case (Suc r)
  show ?case
  proof (cases "v \<ge> 0x80")
    case False
    have vb: "varint_bytes v = [word_of_int (v AND 0x7F)]" using False by (rule varint_bytes_last)
    have "take (length [word_of_int (v AND 0x7F) :: byte]) (drop (n + i) b) = [word_of_int (v AND 0x7F)]"
      using Suc.prems(4) unfolding vb .
    then have b: "n + i < length b" "b ! (n + i) = word_of_int (v AND 0x7F)"
      using take_eq_ConsD [of "word_of_int (v AND 0x7F)" "[]" "n + i" b] by simp_all
    have u: "uint (b ! (n + i)) = v"
      unfolding b uint_last_byte using Suc.prems(1) False by (simp add: take_bit_int_eq_self)
    show ?thesis
      using unmarshal_uint_loop_stop [of i n b x s] b(1) u False Suc.prems(3) vb by simp
  next
    case True
    let ?c = "word_of_int ((v AND 0x7F) OR 0x80) :: byte"
    let ?v = "drop_bit 7 v"
    have vb: "varint_bytes v = ?c # varint_bytes ?v" using True by (rule varint_bytes_cont)
    have "take (length (?c # varint_bytes ?v)) (drop (n + i) b) = ?c # varint_bytes ?v"
      using Suc.prems(4) unfolding vb .
    then have b: "n + i < length b" "b ! (n + i) = ?c"
        "take (length (varint_bytes ?v)) (drop (Suc (n + i)) b) = varint_bytes ?v"
      using take_eq_ConsD [of ?c "varint_bytes ?v" "n + i" b] by simp_all
    have u: "uint (b ! (n + i)) = take_bit 7 v + 128"
      unfolding b uint_cont_byte ..
    have u7: "uint (b ! (n + i)) AND 0x7F = take_bit 7 v"
      unfolding u and_127_take_bit by (simp add: take_bit_eq_mod)
    have step: "unmarshal_uint_loop n b i x s =
        unmarshal_uint_loop n b (i + 1) (x OR push_bit s (take_bit 7 v)) (s + 7)"
      using unmarshal_uint_loop_cont [of i n b x s] b(1) u Suc.prems(3) unfolding u7 by simp
    have "unmarshal_uint_loop n b (i + 1) (x OR push_bit s (take_bit 7 v)) (s + 7) =
        Inr (n + (i + 1) + length (varint_bytes ?v), (x OR push_bit s (take_bit 7 v)) OR push_bit (s + 7) ?v)"
      using Suc.prems b(3) drop7_less [of v r]
      by (intro Suc.IH) simp_all
    then show ?thesis
      unfolding step vb or_push_low7 low7_recompose by simp
  qed
qed

lemma unmarshal_uint_loop_overflow:
  "2 * 128 ^ r \<le> v \<Longrightarrow> i + r = 9 \<Longrightarrow>
   take (length (varint_bytes v)) (drop (n + i) b) = varint_bytes v \<Longrightarrow>
     unmarshal_uint_loop n b i x s = Inl (BencException OVERFLOW)"
proof (induction r arbitrary: v i x s)
  case 0
  then have i: "i = 9" and v2: "1 < v" by simp_all
  show ?case
  proof (cases "v \<ge> 0x80")
    case False
    have vb: "varint_bytes v = [word_of_int (v AND 0x7F)]" using False by (rule varint_bytes_last)
    have "take (length [word_of_int (v AND 0x7F) :: byte]) (drop (n + i) b) = [word_of_int (v AND 0x7F)]"
      using "0.prems"(3) unfolding vb .
    then have b: "n + i < length b" "b ! (n + i) = word_of_int (v AND 0x7F)"
      using take_eq_ConsD [of "word_of_int (v AND 0x7F)" "[]" "n + i" b] by simp_all
    have u: "uint (b ! (n + i)) = v"
      unfolding b uint_last_byte using v2 False by (simp add: take_bit_int_eq_self)
    show ?thesis
      using unmarshal_uint_loop_stop [of i n b x s] b(1) u False v2 i by simp
  next
    case True
    let ?c = "word_of_int ((v AND 0x7F) OR 0x80) :: byte"
    have vb: "varint_bytes v = ?c # varint_bytes (drop_bit 7 v)" using True by (rule varint_bytes_cont)
    have "take (length (?c # varint_bytes (drop_bit 7 v))) (drop (n + i) b) = ?c # varint_bytes (drop_bit 7 v)"
      using "0.prems"(3) unfolding vb .
    then have b: "n + i < length b" "b ! (n + i) = ?c"
      using take_eq_ConsD [of ?c "varint_bytes (drop_bit 7 v)" "n + i" b] by simp_all
    have u: "uint (b ! (n + i)) = take_bit 7 v + 128"
      unfolding b uint_cont_byte ..
    show ?thesis
      using unmarshal_uint_loop_cont [of i n b x s] b(1) u i
      by (simp add: unmarshal_uint_loop_end)
  qed
next
  case (Suc r)
  have "(1::int) \<le> 128 ^ r" by simp
  then have "(256::int) \<le> 2 * 128 ^ Suc r" by simp
  then have True: "v \<ge> 0x80" using Suc.prems(1) by linarith
  let ?c = "word_of_int ((v AND 0x7F) OR 0x80) :: byte"
  let ?v = "drop_bit 7 v"
  have vb: "varint_bytes v = ?c # varint_bytes ?v" using True by (rule varint_bytes_cont)
  have "take (length (?c # varint_bytes ?v)) (drop (n + i) b) = ?c # varint_bytes ?v"
    using Suc.prems(3) unfolding vb .
  then have b: "n + i < length b" "b ! (n + i) = ?c"
      "take (length (varint_bytes ?v)) (drop (Suc (n + i)) b) = varint_bytes ?v"
    using take_eq_ConsD [of ?c "varint_bytes ?v" "n + i" b] by simp_all
  have u: "uint (b ! (n + i)) = take_bit 7 v + 128"
    unfolding b uint_cont_byte ..
  have step: "unmarshal_uint_loop n b i x s =
      unmarshal_uint_loop n b (i + 1) (x OR push_bit s (uint (b ! (n + i)) AND 0x7F)) (s + 7)"
    using unmarshal_uint_loop_cont [of i n b x s] b(1) u Suc.prems(2) by simp
  show ?case
    unfolding step using Suc.prems b(3) drop7_ge [of r v]
    by (intro Suc.IH) simp_all
qed

text \<open>A varint marshalled at offset n into a buffer with room for it.\<close>

lemma marshal_uint_bytes:
  "n + size_uint v \<le> length b \<Longrightarrow>
     marshal_uint n b v =
       Inr (n + size_uint v, take n b @ varint_bytes v @ drop (n + size_uint v) b)"
  unfolding marshal_uint_def using marshal_uint_loop_bytes [of n v b]
  by (simp add: length_varint_bytes)

lemma unmarshal_uint_marshalled:
  assumes "0 \<le> v" "v < 2 ^ 64" "n + size_uint v \<le> length b"
  shows "unmarshal_uint n (take n b @ varint_bytes v @ drop (n + size_uint v) b) = Inr (n + size_uint v, v)"
proof -
  let ?b = "take n b @ varint_bytes v @ drop (n + size_uint v) b"
  have t: "take (length (varint_bytes v)) (drop (n + 0) ?b) = varint_bytes v"
    using assms(3) by simp
  have g: "v < 2 * 128 ^ 9" using assms(2) by simp
  have "unmarshal_uint_loop n ?b 0 0 0 = Inr (n + 0 + length (varint_bytes v), 0 OR push_bit 0 v)"
    by (rule unmarshal_uint_loop_bytes [OF assms(1) g _ t]) simp
  then show ?thesis by (simp add: unmarshal_uint_def length_varint_bytes)
qed

lemma unmarshal_uint_marshalled_overflow:
  assumes "2 ^ 64 \<le> v" "n + size_uint v \<le> length b"
  shows "unmarshal_uint n (take n b @ varint_bytes v @ drop (n + size_uint v) b) = Inl (BencException OVERFLOW)"
proof -
  let ?b = "take n b @ varint_bytes v @ drop (n + size_uint v) b"
  have t: "take (length (varint_bytes v)) (drop (n + 0) ?b) = varint_bytes v"
    using assms(2) by simp
  have g: "2 * 128 ^ 9 \<le> v" using assms(1) by simp
  have "unmarshal_uint_loop n ?b 0 0 0 = Inl (BencException OVERFLOW)"
    by (rule unmarshal_uint_loop_overflow [OF g _ t]) simp
  then show ?thesis by (simp add: unmarshal_uint_def)
qed

text \<open>
  C2. For every \<open>v\<close> with \<open>0 \<le> v < 2^64\<close>, \<^verbatim>\<open>marshal_uint\<close> of \<open>v\<close> at offset 0 into a fresh
  zero-filled buffer of length \<open>size_uint v\<close> succeeds and returns the offset
  \<open>size_uint v\<close>, and \<^verbatim>\<open>unmarshal_uint\<close> at offset 0 on the buffer it wrote returns
  \<open>(size_uint v, v)\<close>.
\<close>

theorem uint_round_trip:
  "0 \<le> v \<Longrightarrow> v < 2 ^ 64 \<Longrightarrow>
     \<exists>b'. marshal_uint 0 (replicate (size_uint v) 0) v = Inr (size_uint v, b')
        \<and> unmarshal_uint 0 b' = Inr (size_uint v, v)"
proof -
  assume v: "0 \<le> v" "v < 2 ^ 64"
  let ?b = "replicate (size_uint v) 0 :: buffer"
  have "marshal_uint 0 ?b v = Inr (0 + size_uint v, take 0 ?b @ varint_bytes v @ drop (0 + size_uint v) ?b)"
    by (intro marshal_uint_bytes) simp
  moreover have "unmarshal_uint 0 (take 0 ?b @ varint_bytes v @ drop (0 + size_uint v) ?b) = Inr (0 + size_uint v, v)"
    using v by (intro unmarshal_uint_marshalled) simp_all
  ultimately show ?thesis by simp
qed

text \<open>The round trip of 300 (two bytes) and of the largest value \<open>2^64 - 1\<close> (ten bytes).\<close>

theorem uint_round_trip_witness:
  "size_uint 300 = 2 \<and> marshal_uint 0 [0, 0] 300 = Inr (2, [0xAC, 0x02])
   \<and> unmarshal_uint 0 [0xAC, 0x02] = Inr (2, 300)
   \<and> size_uint (2 ^ 64 - 1) = 10
   \<and> marshal_uint 0 (replicate 10 0) (2 ^ 64 - 1) = Inr (10, replicate 9 0xFF @ [0x01])
   \<and> unmarshal_uint 0 (replicate 9 0xFF @ [0x01]) = Inr (10, 2 ^ 64 - 1)"
proof -
  have s: "size_uint 300 = 2" by code_simp
  have m: "marshal_uint 0 [0, 0] 300 = Inr (2, [0xAC, 0x02])" by code_simp
  have r: "replicate (size_uint 300) (0::byte) = [0, 0]" unfolding s by (simp add: numeral_2_eq_2)
  have s': "size_uint (2 ^ 64 - 1) = 10" by code_simp
  have m': "marshal_uint 0 (replicate 10 0) (2 ^ 64 - 1) = Inr (10, replicate 9 0xFF @ [0x01])"
    by code_simp
  have "unmarshal_uint 0 [0xAC, 0x02] = Inr (2, 300)"
    using uint_round_trip [of 300] s m r by simp
  moreover have "unmarshal_uint 0 (replicate 9 0xFF @ [0x01]) = Inr (10, 2 ^ 64 - 1)"
    using uint_round_trip [of "2 ^ 64 - 1"] s' m' by simp
  ultimately show ?thesis using s m s' m' by simp
qed

section \<open>Values of 64 bits and more\<close>

lemma size_uint_eq_bitlength: "0 \<le> v \<Longrightarrow> size_uint v = 1 + (bitlength v - 1) div 7"
  by (simp add: size_uint_def size_uint_loop_bitlength)

lemma bitlength_ge: "2 ^ k \<le> v \<Longrightarrow> k < bitlength v"
proof -
  assume a: "2 ^ k \<le> v"
  then have "0 < v div 2 ^ k" by (simp add: pos_imp_zdiv_pos_iff)
  then have "0 < bitlength (v div 2 ^ k)" by (rule bitlength_pos)
  then show ?thesis using bitlength_div [OF a] by simp
qed

lemma size_uint_ge_10: "2 ^ 64 \<le> v \<Longrightarrow> 10 \<le> size_uint v"
proof -
  assume a: "2 ^ 64 \<le> v"
  then have "64 < bitlength v" by (rule bitlength_ge)
  then have "9 \<le> (bitlength v - 1) div 7" by simp
  moreover have "0 \<le> v" using a by simp
  ultimately show ?thesis by (simp add: size_uint_eq_bitlength)
qed

lemma size_uint_gt_10_iff: "0 \<le> v \<Longrightarrow> 10 < size_uint v \<longleftrightarrow> 2 ^ 70 \<le> v"
proof
  assume v: "0 \<le> v" and "10 < size_uint v"
  then have g: "70 < bitlength v" by (simp add: size_uint_eq_bitlength)
  show "2 ^ 70 \<le> v"
  proof (rule ccontr)
    assume "\<not> 2 ^ 70 \<le> v"
    then have "bitlength v \<le> 70" using v by (intro bitlength_le) simp_all
    with g show False by simp
  qed
next
  assume v: "0 \<le> v" and a: "2 ^ 70 \<le> v"
  then have "70 < bitlength v" by (intro bitlength_ge)
  then have "10 \<le> (bitlength v - 1) div 7" by simp
  then show "10 < size_uint v" using v by (simp add: size_uint_eq_bitlength)
qed

text \<open>
  C9, as amended. For every \<open>v \<ge> 2^64\<close>, \<open>size_uint v\<close> is at least 10 (and above 10
  exactly from \<open>2^70\<close> on); \<^verbatim>\<open>marshal_uint\<close>, given a buffer with \<open>size_uint v\<close> bytes of
  room at \<open>n\<close>, writes them without error; and \<^verbatim>\<open>unmarshal_uint\<close> on what it wrote raises
  \<^verbatim>\<open>OVERFLOW\<close>.
\<close>

theorem uint_beyond_64_bits:
  "2 ^ 64 \<le> v \<Longrightarrow>
     10 \<le> size_uint v \<and> (10 < size_uint v \<longleftrightarrow> 2 ^ 70 \<le> v)
   \<and> (\<forall>n b. n + size_uint v \<le> length b \<longrightarrow>
         (\<exists>b'. marshal_uint n b v = Inr (n + size_uint v, b')
              \<and> unmarshal_uint n b' = Inl (BencException OVERFLOW)))"
proof -
  assume a: "2 ^ 64 \<le> v"
  then have v: "0 \<le> v" by simp
  have "\<exists>b'. marshal_uint n b v = Inr (n + size_uint v, b')
              \<and> unmarshal_uint n b' = Inl (BencException OVERFLOW)"
    if "n + size_uint v \<le> length b" for n b
    using marshal_uint_bytes [OF that] unmarshal_uint_marshalled_overflow [OF a that] by simp
  then show ?thesis
    using size_uint_ge_10 [OF a] size_uint_gt_10_iff [OF v] by blast
qed

text \<open>
  The claim as stated fails at \<open>v = 2^64\<close>: its size is exactly 10, and its encoding
  (nine bytes \<open>0x80\<close> and a final \<open>0x02\<close>) has 10 bytes, not more.
\<close>

theorem uint_beyond_64_bits_counterexample:
  "(2::int) ^ 64 \<le> 2 ^ 64 \<and> \<not> 10 < size_uint (2 ^ 64)
   \<and> marshal_uint 0 (replicate 10 0) (2 ^ 64) = Inr (10, replicate 9 0x80 @ [0x02])"
proof -
  have "size_uint (2 ^ 64) = 10" by code_simp
  moreover have "marshal_uint 0 (replicate 10 0) (2 ^ 64) = Inr (10, replicate 9 0x80 @ [0x02])"
    by code_simp
  ultimately show ?thesis by simp
qed

text \<open>The amended statement at \<open>v = 2^64\<close>, on a fresh buffer of 10 bytes.\<close>

theorem uint_beyond_64_bits_witness:
  "size_uint (2 ^ 64) = 10
   \<and> marshal_uint 0 (replicate 10 0) (2 ^ 64) = Inr (10, replicate 9 0x80 @ [0x02])
   \<and> unmarshal_uint 0 (replicate 9 0x80 @ [0x02]) = Inl (BencException OVERFLOW)"
proof -
  have s: "size_uint (2 ^ 64) = 10" by code_simp
  have m: "marshal_uint 0 (replicate 10 0) (2 ^ 64) = Inr (10, replicate 9 0x80 @ [0x02])"
    by code_simp
  have "(2::int) ^ 64 \<le> 2 ^ 64" by simp
  from uint_beyond_64_bits [OF this]
  have "\<exists>b'. marshal_uint 0 (replicate 10 0) (2 ^ 64) = Inr (0 + size_uint (2 ^ 64), b')
              \<and> unmarshal_uint 0 b' = Inl (BencException OVERFLOW)"
    unfolding s by (elim conjE allE [where x = 0] allE [where x = "replicate 10 0"]) simp
  with s m show ?thesis by auto
qed

section \<open>Slices\<close>

lemma take_eq_nth:
  "take m b' = take m b \<Longrightarrow> j < m \<Longrightarrow> j < length b \<Longrightarrow> j < length b' \<and> b' ! j = b ! j"
proof -
  assume a: "take m b' = take m b" and j: "j < m" "j < length b"
  have "length (take m b') = length (take m b)" using a by simp
  then have l: "j < length b'" using j by simp
  have "take m b' ! j = take m b ! j" using a by simp
  then show ?thesis using j l by simp
qed

lemma unmarshal_uint_loop_offset:
  "unmarshal_uint_loop n b i x s = Inr (m, v) \<Longrightarrow> n + i < m \<and> m \<le> length b"
proof (induction n b i x s rule: unmarshal_uint_loop.induct)
  case (1 n buf i x s)
  from "1.prems" have i: "i < 10" "n + i < length buf"
    by (subst (asm) unmarshal_uint_loop.simps, simp add: MAX_VARINT_LEN_def split: if_splits)+
  show ?case
  proof (cases "uint (buf ! (n + i)) < 0x80")
    case True
    then show ?thesis
      using "1.prems" i unmarshal_uint_loop_stop [of i n buf x s] by (auto split: if_splits)
  next
    case False
    then have "unmarshal_uint_loop n buf (i + 1) (x OR push_bit s (uint (buf ! (n + i)) AND 0x7F)) (s + 7) = Inr (m, v)"
      using "1.prems" i unmarshal_uint_loop_cont [of i n buf x s] by simp
    then have "n + (i + 1) < m \<and> m \<le> length buf"
      using i False by (intro "1.IH" [OF _ _ refl]) (simp_all add: MAX_VARINT_LEN_def)
    then show ?thesis by simp
  qed
qed

lemma unmarshal_uint_loop_local:
  "unmarshal_uint_loop n b i x s = Inr (m, v) \<Longrightarrow> take m b' = take m b \<Longrightarrow>
     unmarshal_uint_loop n b' i x s = Inr (m, v)"
proof (induction n b i x s rule: unmarshal_uint_loop.induct)
  case (1 n buf i x s)
  from "1.prems"(1) have i: "i < 10" "n + i < length buf"
    by (subst (asm) unmarshal_uint_loop.simps, simp add: MAX_VARINT_LEN_def split: if_splits)+
  have m: "n + i < m" using unmarshal_uint_loop_offset [OF "1.prems"(1)] by simp
  have b': "n + i < length b'" "b' ! (n + i) = buf ! (n + i)"
    using take_eq_nth [OF "1.prems"(2) m i(2)] by simp_all
  show ?case
  proof (cases "uint (buf ! (n + i)) < 0x80")
    case True
    then show ?thesis
      using "1.prems"(1) i b' unmarshal_uint_loop_stop [of i n buf x s]
        unmarshal_uint_loop_stop [of i n b' x s] by (auto split: if_splits)
  next
    case False
    then have "unmarshal_uint_loop n buf (i + 1) (x OR push_bit s (uint (buf ! (n + i)) AND 0x7F)) (s + 7) = Inr (m, v)"
      using "1.prems" i unmarshal_uint_loop_cont [of i n buf x s] by simp
    then have "unmarshal_uint_loop n b' (i + 1) (x OR push_bit s (uint (buf ! (n + i)) AND 0x7F)) (s + 7) = Inr (m, v)"
      using i False "1.prems"(2) by (intro "1.IH" [OF _ _ refl]) (simp_all add: MAX_VARINT_LEN_def)
    then show ?thesis
      using False i b' unmarshal_uint_loop_cont [of i n b' x s] by simp
  qed
qed

lemma unmarshal_uint_local:
  "unmarshal_uint n b = Inr (m, v) \<Longrightarrow> take m b' = take m b \<Longrightarrow> unmarshal_uint n b' = Inr (m, v)"
  unfolding unmarshal_uint_def by (rule unmarshal_uint_loop_local)

lemma unmarshal_uint_offset:
  "unmarshal_uint n b = Inr (m, v) \<Longrightarrow> n < m \<and> m \<le> length b"
  unfolding unmarshal_uint_def using unmarshal_uint_loop_offset [of n b 0 0 0 m v] by simp

lemma unmarshal_items_reads:
  "unmarshal_items u k n b acc = Inr (m, ys) \<longleftrightarrow>
     (\<exists>xs. ys = acc @ xs \<and> length xs = k \<and> reads u b n xs m)"
proof (induction k arbitrary: n acc)
  case 0
  then show ?case by auto
next
  case (Suc k)
  show ?case
  proof (cases "u n b")
    case (Inl e)
    then show ?thesis by (auto simp: length_Suc_conv)
  next
    case (Inr r)
    obtain n' item where r: "r = (n', item)" by (cases r)
    have "unmarshal_items u (Suc k) n b acc = Inr (m, ys) \<longleftrightarrow>
        (\<exists>xs. ys = (acc @ [item]) @ xs \<and> length xs = k \<and> reads u b n' xs m)"
      using Inr r Suc.IH [of n' "acc @ [item]"] by simp
    also have "\<dots> \<longleftrightarrow> (\<exists>xs. ys = acc @ xs \<and> length xs = Suc k \<and> reads u b n xs m)"
      using Inr r by (auto simp: length_Suc_conv)
    finally show ?thesis .
  qed
qed

lemma reads_mono: "local_unmarshaler u \<Longrightarrow> reads u b n xs m \<Longrightarrow> n \<le> m"
proof (induction xs arbitrary: n)
  case Nil
  then show ?case by simp
next
  case (Cons x xs)
  from Cons.prems(2) obtain n' where s: "u n b = Inr (n', x)" and r: "reads u b n' xs m"
    by (auto split: sum.splits)
  have "n \<le> n'" using Cons.prems(1) s unfolding local_unmarshaler_def by blast
  moreover have "n' \<le> m" using Cons.IH [OF Cons.prems(1) r] .
  ultimately show ?case by simp
qed

lemma reads_local:
  "local_unmarshaler u \<Longrightarrow> reads u b n xs m \<Longrightarrow> take m b' = take m b \<Longrightarrow> reads u b' n xs m"
proof (induction xs arbitrary: n)
  case Nil
  then show ?case by simp
next
  case (Cons x xs)
  from Cons.prems(2) obtain n' where s: "u n b = Inr (n', x)" and r: "reads u b n' xs m"
    by (auto split: sum.splits)
  have le: "n' \<le> m" using reads_mono [OF Cons.prems(1) r] .
  have "take n' (take m b') = take n' (take m b)" using Cons.prems(3) by simp
  then have "take n' b' = take n' b" using le by (simp add: min_absorb1)
  then have "u n b' = Inr (n', x)"
    using Cons.prems(1) s unfolding local_unmarshaler_def by blast
  moreover have "reads u b' n' xs m" using Cons.IH [OF Cons.prems(1) r Cons.prems(3)] .
  ultimately show ?case by simp
qed

lemma unmarshal_slice_success:
  "unmarshal_slice n b u = Inr (m, xs) \<longleftrightarrow>
     (\<exists>n1 c n2. unmarshal_uint n b = Inr (n1, c) \<and> length xs = nat c
        \<and> reads u b n1 xs n2 \<and> n2 + 4 \<le> length b \<and> m = n2 + 4)"
proof -
  have "unmarshal_slice n b u = Inr (m, xs) \<longleftrightarrow>
     (\<exists>n1 c n2. unmarshal_uint n b = Inr (n1, c)
        \<and> unmarshal_items u (nat c) n1 b [] = Inr (n2, xs) \<and> n2 + 4 \<le> length b \<and> m = n2 + 4)"
    unfolding unmarshal_slice_def
    by (auto split: sum.splits prod.splits if_splits)
  then show ?thesis by (simp add: unmarshal_items_reads)
qed

lemma unmarshal_slice_no_terminator:
  "unmarshal_uint n b = Inr (n1, c) \<Longrightarrow> length xs = nat c \<Longrightarrow> reads u b n1 xs n2 \<Longrightarrow>
   length b < n2 + 4 \<Longrightarrow> unmarshal_slice n b u = Inl (BencException BUF_TOO_SMALL)"
proof -
  assume a: "unmarshal_uint n b = Inr (n1, c)" "length xs = nat c" "reads u b n1 xs n2"
    "length b < n2 + 4"
  have "unmarshal_items u (nat c) n1 b [] = Inr (n2, xs)"
    using a(2,3) by (simp add: unmarshal_items_reads)
  then show ?thesis using a(1,4) by (simp add: unmarshal_slice_def)
qed

lemma unmarshal_slice_terminator_free:
  assumes u: "local_unmarshaler u"
    and ok: "unmarshal_slice n b u = Inr (m, xs)"
    and pre: "take (m - 4) b' = take (m - 4) b"
  shows "unmarshal_slice n b' u =
           (if m \<le> length b' then Inr (m, xs) else Inl (BencException BUF_TOO_SMALL))"
proof -
  from ok obtain n1 c n2 where
    c: "unmarshal_uint n b = Inr (n1, c)" and l: "length xs = nat c"
    and r: "reads u b n1 xs n2" and m: "m = n2 + 4" "n2 + 4 \<le> length b"
    unfolding unmarshal_slice_success by blast
  have n2: "take n2 b' = take n2 b" using pre m by simp
  have le: "n1 \<le> n2" using reads_mono [OF u r] .
  have "take n1 (take n2 b') = take n1 (take n2 b)" using n2 by simp
  then have "take n1 b' = take n1 b" using le by (simp add: min_absorb1)
  then have c': "unmarshal_uint n b' = Inr (n1, c)" using c by (rule unmarshal_uint_local [rotated])
  have r': "reads u b' n1 xs n2" using reads_local [OF u r n2] .
  show ?thesis
  proof (cases "m \<le> length b'")
    case True
    then have "\<exists>n1 c n2. unmarshal_uint n b' = Inr (n1, c) \<and> length xs = nat c
        \<and> reads u b' n1 xs n2 \<and> n2 + 4 \<le> length b' \<and> m = n2 + 4"
      using c' l r' m by blast
    then have "unmarshal_slice n b' u = Inr (m, xs)"
      by (simp only: unmarshal_slice_success)
    then show ?thesis using True by simp
  next
    case False
    then have "length b' < n2 + 4" using m by simp
    then show ?thesis
      using unmarshal_slice_no_terminator [OF c' l r'] False by simp
  qed
qed

lemma local_unmarshal_byte: "local_unmarshaler unmarshal_byte"
  unfolding local_unmarshaler_def unmarshal_byte_def
proof (intro allI impI)
  fix n b n' x
  assume a: "(if int (length b) - int n < 1 then Inl (BencException BUF_TOO_SMALL)
        else Inr (n + 1, uint (b ! n))) = Inr (n', x)"
  then have n: "n < length b" "n' = n + 1" "x = uint (b ! n)"
    by (auto split: if_splits)
  have "(if int (length b') - int n < 1 then Inl (BencException BUF_TOO_SMALL)
            else Inr (n + 1, uint (b' ! n))) = Inr (n', x)"
    if "take n' b' = take n' b" for b'
    using take_eq_nth [OF that, of n] n by simp
  then show "n \<le> n' \<and> (\<forall>b'. take n' b' = take n' b \<longrightarrow>
      (if int (length b') - int n < 1 then Inl (BencException BUF_TOO_SMALL)
            else Inr (n + 1, uint (b' ! n))) = Inr (n', x))"
    using n by simp
qed

text \<open>
  C8. \<^verbatim>\<open>unmarshal_slice\<close> reads the count varint, calls the element unmarshaler exactly
  count times in order and collects the results into a list, then requires at least 4
  bytes to remain (\<^verbatim>\<open>BUF_TOO_SMALL\<close> otherwise) and advances past them without looking at
  them: with an element unmarshaler that depends only on the bytes it consumes, a buffer
  of the same length that agrees with \<open>b\<close> before the 4 terminator bytes unmarshals to the
  same offset and list, and a buffer cut anywhere inside the terminator (in particular one
  byte short) raises \<^verbatim>\<open>BUF_TOO_SMALL\<close>.
\<close>

theorem unmarshal_slice_spec:
  "(unmarshal_slice n b u = Inr (m, xs) \<longleftrightarrow>
      (\<exists>n1 c n2. unmarshal_uint n b = Inr (n1, c) \<and> length xs = nat c
         \<and> reads u b n1 xs n2 \<and> n2 + 4 \<le> length b \<and> m = n2 + 4))
   \<and> (\<forall>n1 c n2. unmarshal_uint n b = Inr (n1, c) \<and> length xs = nat c
         \<and> reads u b n1 xs n2 \<and> length b < n2 + 4
         \<longrightarrow> unmarshal_slice n b u = Inl (BencException BUF_TOO_SMALL))
   \<and> (local_unmarshaler u \<and> unmarshal_slice n b u = Inr (m, xs) \<longrightarrow>
         (\<forall>b'. length b' = length b \<and> take (m - 4) b' = take (m - 4) b
              \<longrightarrow> unmarshal_slice n b' u = Inr (m, xs))
       \<and> (\<forall>l. m - 4 \<le> l \<and> l < m
              \<longrightarrow> unmarshal_slice n (take l b) u = Inl (BencException BUF_TOO_SMALL)))"
proof (intro conjI allI impI)
  show "unmarshal_slice n b u = Inr (m, xs) \<longleftrightarrow>
      (\<exists>n1 c n2. unmarshal_uint n b = Inr (n1, c) \<and> length xs = nat c
         \<and> reads u b n1 xs n2 \<and> n2 + 4 \<le> length b \<and> m = n2 + 4)"
    by (rule unmarshal_slice_success)
next
  fix n1 c n2
  assume "unmarshal_uint n b = Inr (n1, c) \<and> length xs = nat c
         \<and> reads u b n1 xs n2 \<and> length b < n2 + 4"
  then show "unmarshal_slice n b u = Inl (BencException BUF_TOO_SMALL)"
    using unmarshal_slice_no_terminator by blast
next
  fix b'
  assume a: "local_unmarshaler u \<and> unmarshal_slice n b u = Inr (m, xs)"
    and b': "length b' = length b \<and> take (m - 4) b' = take (m - 4) b"
  have "m \<le> length b" using a unfolding unmarshal_slice_success by auto
  then show "unmarshal_slice n b' u = Inr (m, xs)"
    using unmarshal_slice_terminator_free [of u n b m xs b'] a b' by simp
next
  fix l
  assume a: "local_unmarshaler u \<and> unmarshal_slice n b u = Inr (m, xs)"
    and l: "m - 4 \<le> l \<and> l < m"
  have "take (m - 4) (take l b) = take (m - 4) b" using l by (simp add: min_absorb1)
  moreover have "\<not> m \<le> length (take l b)" using l by simp
  ultimately show "unmarshal_slice n (take l b) u = Inl (BencException BUF_TOO_SMALL)"
    using unmarshal_slice_terminator_free [of u n b m xs "take l b"] a by simp
qed

text \<open>
  The theorem on a slice of the two bytes 7 and 9: the terminator \<open>01 01 01 01\<close> replaced
  by \<open>FF 00 03 04\<close> gives the same result, and the buffer one byte short raises.
\<close>

theorem unmarshal_slice_spec_witness:
  "unmarshal_slice 0 [2, 7, 9, 1, 1, 1, 1] unmarshal_byte = Inr (7, [7, 9])
   \<and> unmarshal_slice 0 [2, 7, 9, 0xFF, 0, 3, 4] unmarshal_byte = Inr (7, [7, 9])
   \<and> unmarshal_slice 0 [2, 7, 9, 1, 1, 1] unmarshal_byte = Inl (BencException BUF_TOO_SMALL)"
proof -
  let ?b = "[2, 7, 9, 1, 1, 1, 1] :: buffer"
  have ok: "unmarshal_slice 0 ?b unmarshal_byte = Inr (7, [7, 9])" by code_simp
  note t = unmarshal_slice_spec [of 0 ?b unmarshal_byte 7 "[7, 9]"]
  have p: "local_unmarshaler unmarshal_byte \<and> unmarshal_slice 0 ?b unmarshal_byte = Inr (7, [7, 9])"
    using local_unmarshal_byte ok by simp
  have same: "\<forall>b'. length b' = length ?b \<and> take (7 - 4) b' = take (7 - 4) ?b
              \<longrightarrow> unmarshal_slice 0 b' unmarshal_byte = Inr (7, [7, 9])"
    and cut: "\<forall>l. 7 - 4 \<le> l \<and> l < 7
              \<longrightarrow> unmarshal_slice 0 (take l ?b) unmarshal_byte = Inl (BencException BUF_TOO_SMALL)"
    using t p by blast+
  have "unmarshal_slice 0 [2, 7, 9, 0xFF, 0, 3, 4] unmarshal_byte = Inr (7, [7, 9])"
    using same [rule_format, of "[2, 7, 9, 0xFF, 0, 3, 4]"] by simp
  moreover have "unmarshal_slice 0 (take 6 ?b) unmarshal_byte = Inl (BencException BUF_TOO_SMALL)"
    using cut [rule_format, of 6] by simp
  ultimately show ?thesis using ok by simp
qed

section \<open>Skipping a marshalled slice\<close>

lemma marshal_uint_loop_short:
  "length b < i + length (varint_bytes v) \<Longrightarrow>
     marshal_uint_loop b v i = Inl (BencException BUF_TOO_SMALL)"
proof (induction b v i rule: marshal_uint_loop.induct)
  case (1 b v i)
  show ?case
  proof (cases "v \<ge> 0x80")
    case True
    let ?c = "word_of_int ((v AND 0x7F) OR 0x80) :: byte"
    have vb: "varint_bytes v = ?c # varint_bytes (drop_bit 7 v)" using True by (rule varint_bytes_cont)
    show ?thesis
    proof (cases "i \<ge> length b")
      case True
      then show ?thesis using \<open>v \<ge> 0x80\<close> by (subst marshal_uint_loop.simps) simp
    next
      case False
      have "marshal_uint_loop b v i = marshal_uint_loop (b[i := ?c]) (drop_bit 7 v) (i + 1)"
        using True False by (subst marshal_uint_loop.simps) (simp add: to_byte_cont)
      moreover have "marshal_uint_loop (b[i := ?c]) (drop_bit 7 v) (i + 1) = Inl (BencException BUF_TOO_SMALL)"
        using "1.prems" vb True False to_byte_cont [of v]
        by (intro "1.IH"(1)) simp_all
      ultimately show ?thesis by simp
    qed
  next
    case False
    have vb: "varint_bytes v = [word_of_int (v AND 0x7F)]" using False by (rule varint_bytes_last)
    then have "i \<ge> length b" using "1.prems" by simp
    then show ?thesis using False by (subst marshal_uint_loop.simps) simp
  qed
qed

lemma marshal_uint_eq:
  "marshal_uint n b v =
     (if n + size_uint v \<le> length b
      then Inr (n + size_uint v, take n b @ varint_bytes v @ drop (n + size_uint v) b)
      else Inl (BencException BUF_TOO_SMALL))"
  using marshal_uint_bytes [of n v b] marshal_uint_loop_short [of b n v]
  by (simp add: marshal_uint_def length_varint_bytes)

lemma take_take_le: "take m b' = take m b \<Longrightarrow> k \<le> m \<Longrightarrow> take k b' = take k b"
proof -
  assume "take m b' = take m b" and k: "k \<le> m"
  then have "take k (take m b') = take k (take m b)" by simp
  then show ?thesis using k by (simp add: min_absorb1)
qed

lemma marshal_items_skip_items:
  "matching_codec ma sk \<Longrightarrow> marshal_items ma xs n b = Inr (n2, b2) \<Longrightarrow>
     n \<le> n2 \<and> length b2 = length b \<and> take n b2 = take n b
     \<and> (\<forall>b''. take n2 b'' = take n2 b2 \<longrightarrow> skip_items sk (length xs) n b'' = Inr n2)"
proof (induction xs arbitrary: n b)
  case Nil
  then show ?case by simp
next
  case (Cons x xs)
  from Cons.prems(2) obtain n' b' where
    s: "ma n b x = Inr (n', b')" and r: "marshal_items ma xs n' b' = Inr (n2, b2)"
    by (auto split: sum.splits)
  have c: "n \<le> n'" "length b' = length b" "take n b' = take n b"
     "\<And>b''. take n' b'' = take n' b' \<Longrightarrow> sk n b'' = Inr n'"
    using Cons.prems(1) s unfolding matching_codec_def by blast+
  have ih: "n' \<le> n2" "length b2 = length b'" "take n' b2 = take n' b'"
     "\<And>b''. take n2 b'' = take n2 b2 \<Longrightarrow> skip_items sk (length xs) n' b'' = Inr n2"
    using Cons.IH [OF Cons.prems(1) r] by blast+
  have "skip_items sk (length (x # xs)) n b'' = Inr n2" if t: "take n2 b'' = take n2 b2" for b''
  proof -
    have "take n' b'' = take n' b2" using t ih(1) by (rule take_take_le)
    then have "sk n b'' = Inr n'" using ih(3) c(4) by simp
    then show ?thesis using ih(4) [OF t] by simp
  qed
  moreover have "take n b2 = take n b"
    using take_take_le [OF ih(3) c(1)] c(3) by simp
  ultimately show ?case using c ih by simp
qed

lemma skip_slice_marshal_slice:
  assumes codec: "matching_codec ma sk"
    and len: "int (length xs) < 2 ^ 64"
    and ok: "marshal_slice n b xs ma = Inr (m, b')"
  shows "skip_slice n b' sk = Inr m"
proof -
  let ?v = "int (length xs)"
  let ?n1 = "n + size_uint ?v"
  let ?b1 = "take n b @ varint_bytes ?v @ drop ?n1 b"
  from ok have room: "?n1 \<le> length b"
    unfolding marshal_slice_def marshal_uint_eq by (simp split: if_splits)
  then have mu: "marshal_uint n b ?v = Inr (?n1, ?b1)" by (simp add: marshal_uint_eq)
  from ok mu obtain n2 b2 where
    mi: "marshal_items ma xs ?n1 ?b1 = Inr (n2, b2)" and
    fin: "n2 + 4 \<le> length b2" "m = n2 + 4" "b' = take n2 b2 @ [1, 1, 1, 1] @ drop (n2 + 4) b2"
    unfolding marshal_slice_def by (auto split: sum.splits if_splits)
  have it: "?n1 \<le> n2" "length b2 = length ?b1" "take ?n1 b2 = take ?n1 ?b1"
     "\<And>b''. take n2 b'' = take n2 b2 \<Longrightarrow> skip_items sk (length xs) ?n1 b'' = Inr n2"
    using marshal_items_skip_items [OF codec mi] by blast+
  have t2: "take n2 b' = take n2 b2" using fin by simp
  have l: "length b' = length b2" using fin by simp
  have "take ?n1 b' = take ?n1 ?b1"
    using take_take_le [OF t2 it(1)] it(3) by simp
  moreover have "unmarshal_uint n ?b1 = Inr (?n1, ?v)"
    using len room by (intro unmarshal_uint_marshalled) simp_all
  ultimately have cnt: "unmarshal_uint n b' = Inr (?n1, ?v)"
    by (rule unmarshal_uint_local [rotated])
  have "skip_items sk (length xs) ?n1 b' = Inr n2" using it(4) [OF t2] .
  then show ?thesis
    using cnt fin(1,2) l by (simp add: skip_slice_def)
qed

lemma matching_codec_byte: "matching_codec marshal_byte skip_byte"
  unfolding matching_codec_def
proof (intro allI impI)
  fix n b and x :: int and n' b'
  assume a: "marshal_byte n b x = Inr (n', b')"
  then have n: "n < length b" by (auto simp: marshal_byte_def split: if_splits)
  have m: "n' = n + 1" "b' = b[n := word_of_int (x AND 0xFF)]"
    using a marshal_byte_ok [OF n, of x] by simp_all
  have "skip_byte n b'' = Inr n'" if "take n' b'' = take n' b'" for b''
  proof -
    have "length (take n' b'') = length (take n' b')" using that by simp
    then have "n < length b''" using n m by simp
    then show ?thesis using m by (simp add: skip_byte_def)
  qed
  then show "n \<le> n' \<and> length b' = length b \<and> take n b' = take n b
        \<and> (\<forall>b''. take n' b'' = take n' b' \<longrightarrow> skip_byte n b'' = Inr n')"
    using m by simp
qed

lemma skip_slice_marshal_slice_bytes:
  "int (length xs) < 2 ^ 64 \<Longrightarrow> marshal_slice n b xs marshal_byte = Inr (m, b') \<Longrightarrow>
     skip_slice n b' skip_byte = Inr m"
  using matching_codec_byte by (rule skip_slice_marshal_slice)

text \<open>
  C5. Skipping a slice consumes exactly the bytes \<^verbatim>\<open>marshal_slice\<close> produced, also when the
  payload contains the bytes \<open>01 01 01 01\<close>. The slice of the four bytes 1, 1, 1, 1 is
  marshalled into 9 bytes; \<^verbatim>\<open>skip_slice\<close> of \<^verbatim>\<open>bstd.py\<close> returns 9 on them, and \<^verbatim>\<open>skip_slice\<close>
  of \<^verbatim>\<open>std.py\<close>, which scans for the sentinel, returns 5.
\<close>

theorem std_skip_slice_sentinel_in_payload:
  "marshal_slice 0 (replicate 9 0) [1, 1, 1, 1] marshal_byte
     = Inr (9, [4, 1, 1, 1, 1, 1, 1, 1, 1])
   \<and> skip_slice 0 [4, 1, 1, 1, 1, 1, 1, 1, 1] skip_byte = Inr 9
   \<and> std_skip_slice 0 [4, 1, 1, 1, 1, 1, 1, 1, 1] = Inr 5"
proof -
  have "marshal_slice 0 (replicate 9 0) [1, 1, 1, 1] marshal_byte
     = Inr (9, [4, 1, 1, 1, 1, 1, 1, 1, 1])" by code_simp
  moreover have "skip_slice 0 [4, 1, 1, 1, 1, 1, 1, 1, 1] skip_byte = Inr 9" by code_simp
  moreover have "std_skip_slice 0 [4, 1, 1, 1, 1, 1, 1, 1, 1] = Inr 5" by code_simp
  ultimately show ?thesis by (intro conjI)
qed

section \<open>The size of a string\<close>

lemma utf8_char_length: "utf8_char c = Inr bs \<Longrightarrow> length bs = utf8_width c"
  by (auto simp: utf8_char_def utf8_width_def split: if_splits)

lemma utf8_encode_length:
  "utf8_encode s = Inr bs \<Longrightarrow> length bs = sum_list (map utf8_width s)"
proof (induction s arbitrary: bs)
  case Nil
  then show ?case by simp
next
  case (Cons c cs)
  from Cons.prems obtain b1 b2 where
    p: "utf8_char c = Inr b1" "utf8_encode cs = Inr b2" "bs = b1 @ b2"
    by (auto split: sum.splits)
  then show ?case using Cons.IH [OF p(2)] utf8_char_length [OF p(1)] by simp
qed

lemma size_string_utf8:
  "utf8_encode s = Inr bs \<Longrightarrow>
     size_string s = Inr (length bs + size_uint (int (length bs)))
   \<and> length bs = sum_list (map utf8_width s)"
  using utf8_encode_length [of s bs] by (simp add: size_string_def Let_def)

lemma utf8_encode_ascii:
  "\<forall>c \<in> set s. c < 0x80 \<Longrightarrow> utf8_encode s = Inr (map of_nat s)"
  by (induction s) (simp_all add: utf8_char_def)

lemma std_size_string_ascii:
  "\<forall>c \<in> set s. c < 0x80 \<Longrightarrow> size_string s = Inr (std_size_string s)"
  by (simp add: size_string_def std_size_string_def utf8_encode_ascii Let_def)

text \<open>
  C6. \<^verbatim>\<open>size_string\<close> is the number of bytes of the UTF-8 encoding plus \<open>size_uint\<close> of that
  number, not of the number of characters. For the one-character string U+00E9, encoded
  in the two bytes \<open>C3 A9\<close>, \<^verbatim>\<open>size_string\<close> of \<^verbatim>\<open>bstd.py\<close> is 3, and \<^verbatim>\<open>size_string\<close> of
  \<^verbatim>\<open>std.py\<close>, which takes \<^verbatim>\<open>len(s)\<close>, is 2.
\<close>

theorem std_size_string_non_ascii:
  "utf8_encode [0xE9] = Inr [0xC3, 0xA9]
   \<and> size_string [0xE9] = Inr 3
   \<and> std_size_string [0xE9] = 2"
proof -
  have "utf8_encode [0xE9] = Inr [0xC3, 0xA9]" by code_simp
  moreover have "size_string [0xE9] = Inr 3" by code_simp
  moreover have "std_size_string [0xE9] = 2" by code_simp
  ultimately show ?thesis by (intro conjI)
qed

end
